theory Spec2Isabelle
  imports Main "HOL-Library.Word"
begin

unbundle bit_operations_syntax

section \<open>Machine types\<close>

text \<open>
  The server is Winsock code (\<open>SOCKET\<close>), built for little-endian x86 with a 32-bit
  \<open>int\<close> and \<open>unsigned int\<close>, a one-byte \<open>bool\<close> and IEEE single-precision \<open>float\<close>.
  An \<open>int\<close> is kept as its two's-complement bit pattern, so \<open>-1\<close> is the word \<open>-1\<close>; a
  \<open>float\<close> is kept as its bit pattern, which is what \<open>memcpy\<close> and member-wise
  assignment transport.
\<close>

type_synonym byte = "8 word"
type_synonym uint = "32 word"
type_synonym cint = "32 word"
type_synonym float = "32 word"
type_synonym SOCKET = nat

text \<open>\<open>glm::mat4\<close> is an array of four \<open>glm::vec4\<close> columns of four floats each.\<close>

datatype vec4 = Vec4 float float float float
datatype mat4 = Mat4 vec4 vec4 vec4 vec4

text \<open>\<open>glm::mat4(1.0f)\<close>: the identity; \<open>0x3F800000\<close> is the bit pattern of \<open>1.0f\<close>.\<close>

definition mat4_identity :: mat4 where
  "mat4_identity =
     Mat4 (Vec4 0x3F800000 0 0 0) (Vec4 0 0x3F800000 0 0)
          (Vec4 0 0 0x3F800000 0) (Vec4 0 0 0 0x3F800000)"

section \<open>NetworkData.h\<close>

definition MAX_PACKET_SIZE :: nat where
  "MAX_PACKET_SIZE = 1000000"

definition INIT_CONNECTION :: uint where
  "INIT_CONNECTION = 0"

definition ACTION_EVENT :: uint where
  "ACTION_EVENT = 1"

text \<open>\<open>struct Packet\<close>; the field \<open>done\<close> is named \<open>done_flag\<close> here.\<close>

record Packet =
  packet_type :: uint
  attack :: "cint \<times> cint"
  damage :: "cint \<times> cint"
  done_flag :: bool
  headPose :: mat4

subsection \<open>Object representation\<close>

text \<open>
  Field offsets of \<open>Packet\<close> with 4-byte alignment: \<open>packet_type\<close> at 0, \<open>attack\<close> at 4,
  \<open>damage\<close> at 12, \<open>done\<close> at 20, three padding bytes at 21, \<open>headPose\<close> at 24;
  \<open>sizeof(Packet)\<close> is 88.
\<close>

definition sizeof_Packet :: nat where
  "sizeof_Packet = 88"

definition bytes_of_word32 :: "32 word \<Rightarrow> byte list" where
  "bytes_of_word32 w =
     [ucast w, ucast (drop_bit 8 w), ucast (drop_bit 16 w), ucast (drop_bit 24 w)]"

fun word32_of_bytes :: "byte list \<Rightarrow> 32 word" where
  "word32_of_bytes (b0 # b1 # b2 # b3 # rest) =
     ucast b0 OR push_bit 8 (ucast b1) OR push_bit 16 (ucast b2) OR push_bit 24 (ucast b3)"
| "word32_of_bytes _ = 0"

definition bytes_of_pair :: "cint \<times> cint \<Rightarrow> byte list" where
  "bytes_of_pair p = bytes_of_word32 (fst p) @ bytes_of_word32 (snd p)"

definition pair_of_bytes :: "byte list \<Rightarrow> cint \<times> cint" where
  "pair_of_bytes bs = (word32_of_bytes bs, word32_of_bytes (drop 4 bs))"

text \<open>A \<open>bool\<close> is stored as the byte 1 or 0; a stored byte is read as true when non-zero.\<close>

definition bytes_of_bool :: "bool \<Rightarrow> byte list" where
  "bytes_of_bool b = [if b then 1 else 0]"

definition bool_of_bytes :: "byte list \<Rightarrow> bool" where
  "bool_of_bytes bs = (case bs of [] \<Rightarrow> False | b # rest \<Rightarrow> b \<noteq> 0)"

fun bytes_of_vec4 :: "vec4 \<Rightarrow> byte list" where
  "bytes_of_vec4 (Vec4 a b c d) =
     bytes_of_word32 a @ bytes_of_word32 b @ bytes_of_word32 c @ bytes_of_word32 d"

definition vec4_of_bytes :: "byte list \<Rightarrow> vec4" where
  "vec4_of_bytes bs =
     Vec4 (word32_of_bytes bs) (word32_of_bytes (drop 4 bs))
          (word32_of_bytes (drop 8 bs)) (word32_of_bytes (drop 12 bs))"

fun bytes_of_mat4 :: "mat4 \<Rightarrow> byte list" where
  "bytes_of_mat4 (Mat4 c0 c1 c2 c3) =
     bytes_of_vec4 c0 @ bytes_of_vec4 c1 @ bytes_of_vec4 c2 @ bytes_of_vec4 c3"

definition mat4_of_bytes :: "byte list \<Rightarrow> mat4" where
  "mat4_of_bytes bs =
     Mat4 (vec4_of_bytes bs) (vec4_of_bytes (drop 16 bs))
          (vec4_of_bytes (drop 32 bs)) (vec4_of_bytes (drop 48 bs))"

text \<open>
  \<open>Packet::serialize\<close>: \<open>memcpy(data, this, sizeof(Packet))\<close>. The result is the 88 bytes
  stored at \<open>data\<close>. The three padding bytes of the object have no determined value; they
  are the parameter \<open>pad\<close>.
\<close>

definition serialize :: "byte \<times> byte \<times> byte \<Rightarrow> Packet \<Rightarrow> byte list" where
  "serialize pad p =
     bytes_of_word32 (packet_type p) @ bytes_of_pair (attack p) @ bytes_of_pair (damage p) @
     bytes_of_bool (done_flag p) @ (case pad of (p0, p1, p2) \<Rightarrow> [p0, p1, p2]) @
     bytes_of_mat4 (headPose p)"

text \<open>
  \<open>Packet::deserialize\<close>: \<open>memcpy(this, data, sizeof(Packet))\<close>. It takes a pointer only:
  there is no length argument, no check and no error path. The argument is the 88 bytes
  found at \<open>data\<close>; every caller in this theory passes exactly that many.
\<close>

definition deserialize :: "byte list \<Rightarrow> Packet" where
  "deserialize data =
     \<lparr>packet_type = word32_of_bytes data,
      attack = pair_of_bytes (drop 4 data),
      damage = pair_of_bytes (drop 12 data),
      done_flag = bool_of_bytes (drop 20 data),
      headPose = mat4_of_bytes (drop 24 data)\<rparr>"

section \<open>ServerNetwork\<close>

text \<open>Modelled from the spec: the class \<open>ServerNetwork\<close> (spec 4.1, Session Table), whose
  header and code are absent. \<open>ServerGame\<close> uses its member \<open>sessions\<close>, a
  \<open>std::map<unsigned int, SOCKET>\<close> that it iterates in ascending key order, and the calls
  \<open>acceptNewClient\<close>, \<open>receiveData\<close> and \<open>sendToAll\<close>. The table is an association list
  kept in ascending key order; \<open>sent\<close> logs every write to a session's transport, oldest
  first.\<close>

record ServerNetwork =
  sessions :: "(uint \<times> SOCKET) list"
  sent :: "(uint \<times> byte list) list"

text \<open>Modelled from the spec: the constructor of the absent \<open>ServerNetwork\<close>; a fresh
  session table holds no session and nothing has been written.\<close>

definition ServerNetwork_new :: ServerNetwork where
  "ServerNetwork_new = \<lparr>sessions = [], sent = []\<rparr>"

text \<open>Modelled from the spec: registration of a transport handle in the absent
  \<open>ServerNetwork::sessions\<close> table, "registers the transport handle". The spec has
  identifiers never reused and is silent on a key that is already present; as
  \<open>std::map::insert\<close> does, the existing entry is kept.\<close>

fun insert_session :: "uint \<Rightarrow> SOCKET \<Rightarrow> (uint \<times> SOCKET) list \<Rightarrow> (uint \<times> SOCKET) list" where
  "insert_session i h [] = [(i, h)]"
| "insert_session i h ((j, g) # rest) =
     (if i < j then (i, h) # (j, g) # rest
      else if i = j then (j, g) # rest
      else (j, g) # insert_session i h rest)"

text \<open>Modelled from the spec: the absent \<open>ServerNetwork::acceptNewClient(id)\<close>,
  "non-blocking check for a new inbound connection; on success [...] registers the
  transport handle; returns nothing if no connection is pending". The pending connection,
  if any, is the environment's input \<open>conn\<close>.\<close>

definition acceptNewClient ::
  "SOCKET option \<Rightarrow> uint \<Rightarrow> ServerNetwork \<Rightarrow> bool \<times> ServerNetwork" where
  "acceptNewClient conn ident nw =
     (case conn of
        None \<Rightarrow> (False, nw)
      | Some h \<Rightarrow> (True, nw\<lparr>sessions := insert_session ident h (sessions nw)\<rparr>))"

text \<open>What leaves the defined behaviour of the program: a receive larger than the buffer,
  and a record read that runs past the end of the buffer.\<close>

datatype fault = Oversized_receive | Read_past_buffer

text \<open>Modelled from the spec: what the absent \<open>ServerNetwork::receiveData\<close> does to the
  buffer it is given. The received bytes are stored at its start; the bytes after them
  keep the values they had.\<close>

definition store_bytes :: "byte list \<Rightarrow> (nat \<Rightarrow> byte) \<Rightarrow> (nat \<Rightarrow> byte)" where
  "store_bytes bs recvbuf = (\<lambda>k. if k < length bs then bs ! k else recvbuf k)"

text \<open>Modelled from the spec: the absent \<open>ServerNetwork::receiveData(id, recvbuf)\<close>,
  "non-blocking read of all currently available bytes for a session; returns an empty
  sequence (not an error) when nothing is available". \<open>avail\<close> gives the bytes available
  on each session; they are stored in \<open>recvbuf\<close> and their number is returned. More than
  \<open>MAX_PACKET_SIZE\<close> bytes is the case the spec calls undefined: a fault.\<close>

definition receiveData ::
  "(uint \<Rightarrow> byte list) \<Rightarrow> uint \<Rightarrow> (nat \<Rightarrow> byte) \<Rightarrow> fault + (int \<times> (nat \<Rightarrow> byte))" where
  "receiveData avail ident recvbuf =
     (let bs = avail ident in
      if length bs > MAX_PACKET_SIZE then Inl Oversized_receive
      else Inr (int (length bs), store_bytes bs recvbuf))"

text \<open>Modelled from the spec: the absent \<open>ServerNetwork::sendToAll(packets, totalSize)\<close>,
  "writes an identical byte sequence to every session registered in the table at the
  moment of the call".\<close>

definition sendToAll :: "byte list \<Rightarrow> nat \<Rightarrow> ServerNetwork \<Rightarrow> ServerNetwork" where
  "sendToAll packets totalSize nw =
     nw\<lparr>sent := sent nw @ map (\<lambda>(ident, h). (ident, take totalSize packets)) (sessions nw)\<rparr>"

section \<open>ServerGame\<close>

text \<open>
  The members of \<open>class ServerGame\<close>. \<open>network_data\<close> is the receive buffer
  \<open>char network_data[MAX_PACKET_SIZE]\<close>, given by its content at each index; indices from
  \<open>MAX_PACKET_SIZE\<close> on are outside the array and never read (see \<open>process_records\<close>).
\<close>

text \<open>
  The last two fields are not members of the class; no branch of the code reads them.
  \<open>event_log\<close> records, in program order, every merge of an action record into the peer
  state and every call of \<open>sendToAll\<close> with the bytes passed. \<open>uninit_pad\<close> gives the
  values found in the three padding bytes of the local \<open>Packet\<close> of \<open>sendActionPackets\<close>,
  which the code never writes: \<open>uninit_pad s 0\<close> at the next call, \<open>uninit_pad s 1\<close> at the
  call after it, and so on. They are arbitrary.
\<close>

datatype event = Merged Packet | Broadcast "byte list"

record ServerGame =
  my_attack :: "cint \<times> cint"
  other_attack :: "cint \<times> cint"
  my_damage :: "cint \<times> cint"
  other_damage :: "cint \<times> cint"
  my_headPose :: mat4
  other_headPose :: mat4
  game_mode :: bool
  my_done :: bool
  other_done :: bool
  client_id :: uint
  network :: ServerNetwork
  network_data :: "nat \<Rightarrow> byte"
  event_log :: "event list"
  uninit_pad :: "nat \<Rightarrow> byte \<times> byte \<times> byte"

text \<open>The constructor, with the default member initialisers of \<open>ServerGame.h\<close>. The
  buffer is not initialised by the constructor: its content is the parameter \<open>uninit\<close>.
  Nothing has happened yet, and the padding values to come are the parameter \<open>pads\<close>.\<close>

definition ServerGame_new ::
  "(nat \<Rightarrow> byte) \<Rightarrow> (nat \<Rightarrow> byte \<times> byte \<times> byte) \<Rightarrow> ServerGame" where
  "ServerGame_new uninit pads =
     \<lparr>my_attack = (-1, -1), other_attack = (-1, -1),
      my_damage = (-1, -1), other_damage = (-1, -1),
      my_headPose = mat4_identity, other_headPose = mat4_identity,
      game_mode = True, my_done = False, other_done = False,
      client_id = 0, network = ServerNetwork_new, network_data = uninit,
      event_log = [], uninit_pad = pads\<rparr>"

text \<open>\<open>ServerGame::sendActionPackets\<close>. The local \<open>Packet\<close> is not initialised and its
  members are then assigned one by one, so its padding bytes hold what the stack held:
  the next value of \<open>uninit_pad\<close>.\<close>

definition sendActionPackets :: "ServerGame \<Rightarrow> ServerGame" where
  "sendActionPackets s =
     (let packet = \<lparr>packet_type = ACTION_EVENT, attack = my_attack s, damage = my_damage s,
                    done_flag = my_done s, headPose = my_headPose s\<rparr>;
          s1 = s\<lparr>my_attack := (-1, -1), my_damage := (-1, -1)\<rparr>;
          packet_data = serialize (uninit_pad s 0) packet
      in s1\<lparr>network := sendToAll packet_data sizeof_Packet (network s1),
            event_log := event_log s1 @ [Broadcast packet_data],
            uninit_pad := (\<lambda>n. uninit_pad s1 (Suc n))\<rparr>)"

text \<open>The \<open>switch (packet.packet_type)\<close> of \<open>ServerGame::receiveFromClients\<close>: the body
  of the record loop after \<open>deserialize\<close>. The merge of an action record is logged once
  its fields have been stored, before the call of \<open>sendActionPackets\<close>.\<close>

definition handle_packet :: "Packet \<Rightarrow> ServerGame \<Rightarrow> ServerGame" where
  "handle_packet packet s =
     (if packet_type packet = INIT_CONNECTION then sendActionPackets s
      else if packet_type packet = ACTION_EVENT then
        (let s1 = (if fst (attack packet) \<noteq> -1
                   then s\<lparr>other_attack := attack packet, game_mode := True\<rparr> else s);
             s2 = (if fst (damage packet) \<noteq> -1
                   then s1\<lparr>other_damage := damage packet\<rparr> else s1);
             s3 = s2\<lparr>other_done := done_flag packet, other_headPose := headPose packet,
                    event_log := event_log s2 @ [Merged packet]\<rparr>
         in sendActionPackets s3)
      else s)"

text \<open>The \<open>n\<close> bytes at \<open>&mem[i]\<close>.\<close>

definition read_bytes :: "(nat \<Rightarrow> byte) \<Rightarrow> nat \<Rightarrow> nat \<Rightarrow> byte list" where
  "read_bytes mem i n = map mem [i ..< i + n]"

text \<open>
  The loop \<open>while (i < (unsigned int)data_length)\<close> of \<open>receiveFromClients\<close>, entered
  with \<open>i = 0\<close> and \<open>data_length > 0\<close>. \<open>deserialize\<close> copies \<open>sizeof(Packet)\<close> bytes from
  \<open>&network_data[i]\<close> whatever \<open>data_length\<close> is; a copy that would run past the end of
  the array is a fault.
\<close>

function process_records :: "nat \<Rightarrow> nat \<Rightarrow> ServerGame \<Rightarrow> fault + ServerGame" where
  "process_records i data_length s =
     (if i < data_length then
        (if i + sizeof_Packet \<le> MAX_PACKET_SIZE then
           process_records (i + sizeof_Packet) data_length
             (handle_packet (deserialize (read_bytes (network_data s) i sizeof_Packet)) s)
         else Inl Read_past_buffer)
      else Inr s)"
  by pat_completeness auto
termination
  by (relation "measure (\<lambda>(i, data_length, s). data_length - i)")
     (auto simp: sizeof_Packet_def)

declare process_records.simps [simp del]

text \<open>The \<open>for\<close> loop of \<open>receiveFromClients\<close> over the session table, from the iterator's
  position on.\<close>

fun receive_loop ::
  "(uint \<Rightarrow> byte list) \<Rightarrow> (uint \<times> SOCKET) list \<Rightarrow> ServerGame \<Rightarrow> fault + ServerGame" where
  "receive_loop avail [] s = Inr s"
| "receive_loop avail ((ident, h) # rest) s =
     (case receiveData avail ident (network_data s) of
        Inl e \<Rightarrow> Inl e
      | Inr (data_length, buf) \<Rightarrow>
          (let s1 = s\<lparr>network_data := buf\<rparr> in
           if data_length \<le> 0 then receive_loop avail rest s1
           else (case process_records 0 (nat data_length) s1 of
                   Inl e \<Rightarrow> Inl e
                 | Inr s2 \<Rightarrow> receive_loop avail rest s2)))"

text \<open>\<open>ServerGame::receiveFromClients\<close>.\<close>

definition receiveFromClients :: "(uint \<Rightarrow> byte list) \<Rightarrow> ServerGame \<Rightarrow> fault + ServerGame" where
  "receiveFromClients avail s = receive_loop avail (sessions (network s)) s"

text \<open>What the outside world offers during one call of \<open>update\<close>: a pending connection,
  if any, and the bytes available on each session.\<close>

record tick_input =
  pending :: "SOCKET option"
  incoming :: "uint \<Rightarrow> byte list"

text \<open>\<open>ServerGame::update\<close>.\<close>

definition update :: "tick_input \<Rightarrow> ServerGame \<Rightarrow> fault + ServerGame" where
  "update env s =
     (case acceptNewClient (pending env) (client_id s) (network s) of
        (accepted, nw) \<Rightarrow>
          (let s1 = s\<lparr>network := nw\<rparr>;
               s2 = (if accepted then s1\<lparr>client_id := client_id s1 + 1\<rparr> else s1)
           in receiveFromClients (incoming env) s2))"

section \<open>The frame loop of main.cpp\<close>

text \<open>
  \<open>main.cpp\<close> calls \<open>server->update()\<close> once per frame and, between two calls, reads and
  writes the public members of the server (\<open>my_attack\<close>, \<open>other_attack\<close>, \<open>game_mode\<close>, ...).
  \<open>client_id\<close>, \<open>network\<close> and \<open>network_data\<close> are private: whatever the game logic \<open>logic\<close>
  does, they keep their values, and so do the two fields that are not members. \<open>client_id\<close> is a static member, set to 0 by the
  constructor; the program constructs one server.
\<close>

definition game_logic_step :: "(ServerGame \<Rightarrow> ServerGame) \<Rightarrow> ServerGame \<Rightarrow> ServerGame" where
  "game_logic_step logic s =
     (logic s)\<lparr>client_id := client_id s, network := network s, network_data := network_data s,
              event_log := event_log s, uninit_pad := uninit_pad s\<rparr>"

fun run :: "(tick_input \<times> (ServerGame \<Rightarrow> ServerGame)) list \<Rightarrow> ServerGame \<Rightarrow> fault + ServerGame" where
  "run [] s = Inr s"
| "run ((env, logic) # frames) s =
     (case update env s of
        Inl e \<Rightarrow> Inl e
      | Inr s' \<Rightarrow> run frames (game_logic_step logic s'))"

section \<open>Notions used in the statements\<close>

text \<open>The writes of one broadcast from state \<open>s\<close>: for every session of the table, in
  table order, the encoding of the packet built from the outgoing members of \<open>s\<close>.\<close>

definition broadcast_writes :: "ServerGame \<Rightarrow> (uint \<times> byte list) list" where
  "broadcast_writes s =
     map (\<lambda>(ident, h).
            (ident, serialize (uninit_pad s 0)
               \<lparr>packet_type = ACTION_EVENT, attack = my_attack s, damage = my_damage s,
                done_flag = my_done s, headPose = my_headPose s\<rparr>))
         (sessions (network s))"

text \<open>The record number \<open>j\<close> of a buffer, counting from zero: the packet decoded from the
  \<open>sizeof(Packet)\<close> bytes at offset \<open>j * sizeof(Packet)\<close>; and the first \<open>n\<close> records, in
  arrival order.\<close>

definition record_at :: "(nat \<Rightarrow> byte) \<Rightarrow> nat \<Rightarrow> Packet" where
  "record_at mem j = deserialize (read_bytes mem (j * sizeof_Packet) sizeof_Packet)"

definition records_at :: "(nat \<Rightarrow> byte) \<Rightarrow> nat \<Rightarrow> Packet list" where
  "records_at mem n = map (record_at mem) [0 ..< n]"

text \<open>The number of whole records in \<open>L\<close> bytes, plus one when a remainder is left.\<close>

definition record_count :: "nat \<Rightarrow> nat" where
  "record_count L = L div sizeof_Packet + (if L mod sizeof_Packet = 0 then 0 else 1)"

text \<open>The largest multiple of \<open>sizeof(Packet)\<close> that fits the receive buffer (999944): up
  to this many received bytes, no record read leaves the array.\<close>

definition walk_limit :: nat where
  "walk_limit = MAX_PACKET_SIZE - MAX_PACKET_SIZE mod sizeof_Packet"

text \<open>What the event log shows of one event, the bytes of a broadcast aside.\<close>

datatype step = Merge Packet | Send

fun shape :: "event \<Rightarrow> step" where
  "shape (Merged p) = Merge p"
| "shape (Broadcast bs) = Send"

text \<open>The steps of handling one record: an action record is merged and then answered by
  one broadcast; an init record is answered by one broadcast; a record of any other kind
  leaves no trace.\<close>

definition record_steps :: "Packet \<Rightarrow> step list" where
  "record_steps p =
     (if packet_type p = ACTION_EVENT then [Merge p, Send]
      else if packet_type p = INIT_CONNECTION then [Send]
      else [])"

text \<open>The steps of one call of \<open>receiveFromClients\<close>: session after session in table
  order, and for each session the steps of the records of its buffer in arrival order.
  \<open>mem\<close> is the content of the receive buffer before the session is served.\<close>

fun tick_steps ::
  "(uint \<Rightarrow> byte list) \<Rightarrow> (uint \<times> SOCKET) list \<Rightarrow> (nat \<Rightarrow> byte) \<Rightarrow> step list" where
  "tick_steps avail [] mem = []"
| "tick_steps avail ((ident, h) # rest) mem =
     concat (map record_steps
               (records_at (store_bytes (avail ident) mem) (record_count (length (avail ident))))) @
     tick_steps avail rest (store_bytes (avail ident) mem)"

text \<open>The order that the spec states for a tick: every merge comes before every
  broadcast.\<close>

fun merges_before_broadcasts :: "step list \<Rightarrow> bool" where
  "merges_before_broadcasts [] = True"
| "merges_before_broadcasts (Merge p # rest) = merges_before_broadcasts rest"
| "merges_before_broadcasts (Send # rest) = list_all (\<lambda>e. e = Send) rest"

text \<open>The connections accepted during a run, in the order of their acceptance.\<close>

definition accepted :: "(tick_input \<times> (ServerGame \<Rightarrow> ServerGame)) list \<Rightarrow> SOCKET list" where
  "accepted frames = List.map_filter (\<lambda>(env, logic). pending env) frames"

section \<open>Example inputs\<close>

text \<open>Padding bytes, as found on a stack or sent by a client.\<close>

definition wire_pad :: "byte \<times> byte \<times> byte" where
  "wire_pad = (0x55, 0x7F, 0)"

definition two_sessions :: ServerNetwork where
  "two_sessions = \<lparr>sessions = [(0, 100), (1, 101)], sent = []\<rparr>"

text \<open>A server with two sessions and an attack at (5, 6) waiting to be sent; and the same
  server after the game logic has cleared \<open>game_mode\<close>.\<close>

definition example_game :: ServerGame where
  "example_game =
     (ServerGame_new (\<lambda>k. 0) (\<lambda>n. wire_pad))\<lparr>my_attack := (5, 6), network := two_sessions\<rparr>"

definition waiting_game :: ServerGame where
  "waiting_game = example_game\<lparr>game_mode := False\<rparr>"

definition init_packet :: Packet where
  "init_packet =
     \<lparr>packet_type = INIT_CONNECTION, attack = (-1, -1), damage = (-1, -1),
      done_flag = False, headPose = mat4_identity\<rparr>"

definition action_packet :: "cint \<times> cint \<Rightarrow> cint \<times> cint \<Rightarrow> Packet" where
  "action_packet a d =
     \<lparr>packet_type = ACTION_EVENT, attack = a, damage = d,
      done_flag = True, headPose = mat4_identity\<rparr>"

text \<open>A buffer that starts with the given bytes and is zero after them.\<close>

definition buffer_of :: "byte list \<Rightarrow> nat \<Rightarrow> byte" where
  "buffer_of bs = (\<lambda>k. if k < length bs then bs ! k else 0)"

text \<open>The example server with two action records in its receive buffer, attacking (1, 2)
  and (3, 4).\<close>

definition two_record_game :: ServerGame where
  "two_record_game =
     example_game\<lparr>network_data :=
       buffer_of (serialize wire_pad (action_packet (1, 2) (-1, -1)) @
                  serialize wire_pad (action_packet (3, 4) (-1, -1)))\<rparr>"

text \<open>The example server whose receive buffer still holds an action record attacking
  (3, 4) from an earlier receive; a receive of the single byte 1 on session 0; and a call
  of \<open>update\<close> during which session 0 delivers one whole action record.\<close>

definition stale_game :: ServerGame where
  "stale_game =
     example_game\<lparr>network_data :=
       buffer_of (serialize wire_pad (action_packet (3, 4) (-1, -1)))\<rparr>"

definition one_byte_input :: "uint \<Rightarrow> byte list" where
  "one_byte_input ident = (if ident = 0 then [1] else [])"

definition one_record_input :: tick_input where
  "one_record_input =
     \<lparr>pending = None,
      incoming = (\<lambda>ident. if ident = 0
                    then serialize wire_pad (action_packet (3, 4) (-1, -1)) else [])\<rparr>"

text \<open>Session 0 delivers two whole action records in one receive, attacking (1, 2) and
  (3, 4); the other sessions deliver nothing.\<close>

definition two_record_avail :: "uint \<Rightarrow> byte list" where
  "two_record_avail ident =
     (if ident = 0
      then serialize wire_pad (action_packet (1, 2) (-1, -1)) @
           serialize wire_pad (action_packet (3, 4) (-1, -1))
      else [])"

text \<open>A newly constructed server, and a frame in which the connection \<open>h\<close> is accepted, no
  session delivers bytes and the game logic changes nothing.\<close>

definition fresh_game :: ServerGame where
  "fresh_game = ServerGame_new (\<lambda>k. 0) (\<lambda>n. wire_pad)"

definition accept_frame :: "SOCKET \<Rightarrow> tick_input \<times> (ServerGame \<Rightarrow> ServerGame)" where
  "accept_frame h = (\<lparr>pending = Some h, incoming = (\<lambda>ident. [])\<rparr>, id)"

section \<open>The codec\<close>

subsection \<open>Decoding what was encoded\<close>

lemma word32_of_bytes_of_word32: "word32_of_bytes (bytes_of_word32 w @ rest) = w"
  unfolding bytes_of_word32_def
proof (simp, rule bit_word_eqI)
  fix n :: nat
  assume "n < LENGTH(32)"
  then have n: "n < 32" by simp
  consider "n < 8" | "8 \<le> n" "n < 16" | "16 \<le> n" "n < 24" | "24 \<le> n"
    by linarith
  then show "bit (ucast (ucast w :: byte) OR push_bit 8 (ucast (ucast (drop_bit 8 w) :: byte)) OR
        push_bit 16 (ucast (ucast (drop_bit 16 w) :: byte)) OR
        push_bit 24 (ucast (ucast (drop_bit 24 w) :: byte)) :: 32 word) n = bit w n"
    using n by cases (auto simp: bit_simps)
qed

lemma length_bytes_of_word32 [simp]: "length (bytes_of_word32 w) = 4"
  by (simp add: bytes_of_word32_def)

lemma drop_bytes_of_word32 [simp]: "drop 4 (bytes_of_word32 w @ rest) = rest"
  by simp

lemma pair_of_bytes_of_pair: "pair_of_bytes (bytes_of_pair p @ rest) = p"
  by (simp add: pair_of_bytes_def bytes_of_pair_def word32_of_bytes_of_word32)

lemma length_bytes_of_pair [simp]: "length (bytes_of_pair p) = 8"
  by (simp add: bytes_of_pair_def)

lemma bool_of_bytes_of_bool: "bool_of_bytes (bytes_of_bool b @ rest) = b"
  by (simp add: bool_of_bytes_def bytes_of_bool_def)

lemma length_bytes_of_bool [simp]: "length (bytes_of_bool b) = 1"
  by (simp add: bytes_of_bool_def)

lemma length_bytes_of_vec4 [simp]: "length (bytes_of_vec4 v) = 16"
  by (cases v) simp

lemma vec4_of_bytes_of_vec4: "vec4_of_bytes (bytes_of_vec4 v @ rest) = v"
proof (cases v)
  case (Vec4 a b c d)
  have "drop 8 (bytes_of_word32 a @ bytes_of_word32 b @ bytes_of_word32 c @ bytes_of_word32 d @ rest)
        = bytes_of_word32 c @ bytes_of_word32 d @ rest"
    by simp
  moreover have "drop 12 (bytes_of_word32 a @ bytes_of_word32 b @ bytes_of_word32 c @ bytes_of_word32 d @ rest)
        = bytes_of_word32 d @ rest"
    by simp
  ultimately show ?thesis
    using Vec4 by (simp add: vec4_of_bytes_def word32_of_bytes_of_word32)
qed

lemma length_bytes_of_mat4 [simp]: "length (bytes_of_mat4 m) = 64"
  by (cases m) simp

lemma mat4_of_bytes_of_mat4: "mat4_of_bytes (bytes_of_mat4 m @ rest) = m"
proof (cases m)
  case (Mat4 c0 c1 c2 c3)
  then show ?thesis
    using vec4_of_bytes_of_vec4 [of c0 "bytes_of_vec4 c1 @ bytes_of_vec4 c2 @ bytes_of_vec4 c3 @ rest"]
      vec4_of_bytes_of_vec4 [of c1 "bytes_of_vec4 c2 @ bytes_of_vec4 c3 @ rest"]
      vec4_of_bytes_of_vec4 [of c2 "bytes_of_vec4 c3 @ rest"]
      vec4_of_bytes_of_vec4 [of c3 rest]
    by (simp add: mat4_of_bytes_def)
qed

lemma length_serialize: "length (serialize pad p) = sizeof_Packet"
  by (cases pad) (simp add: serialize_def sizeof_Packet_def)

lemma decode_encoded_prefix: "deserialize (serialize pad p @ rest) = p"
proof -
  obtain p0 p1 p2 where pad: "pad = (p0, p1, p2)" by (cases pad) auto
  let ?m = "bytes_of_mat4 (headPose p) @ rest"
  let ?d = "bytes_of_bool (done_flag p) @ [p0, p1, p2] @ ?m"
  let ?dm = "bytes_of_pair (damage p) @ ?d"
  let ?a = "bytes_of_pair (attack p) @ ?dm"
  have all: "serialize pad p @ rest = bytes_of_word32 (packet_type p) @ ?a"
    by (simp add: serialize_def pad)
  have d4: "drop 4 (serialize pad p @ rest) = ?a"
    by (simp add: all)
  have d12: "drop 12 (serialize pad p @ rest) = ?dm"
    by (simp add: all)
  have d20: "drop 20 (serialize pad p @ rest) = ?d"
    by (simp add: all)
  have d24: "drop 24 (serialize pad p @ rest) = ?m"
    by (simp add: all)
  have "deserialize (serialize pad p @ rest) =
        \<lparr>packet_type = packet_type p, attack = attack p, damage = damage p,
         done_flag = done_flag p, headPose = headPose p\<rparr>"
    unfolding deserialize_def d4 d12 d20 d24
    by (simp add: all word32_of_bytes_of_word32 pair_of_bytes_of_pair bool_of_bytes_of_bool
        mat4_of_bytes_of_mat4)
  then show ?thesis by simp
qed

text \<open>
  C1. For every packet \<open>P\<close>, and whatever the padding bytes of its object representation
  are, \<open>deserialize\<close> applied to the 88 bytes written by \<open>serialize\<close> gives back \<open>P\<close>:
  decoding after encoding is the identity on packets.
\<close>

theorem deserialize_serialize: "deserialize (serialize pad P) = P"
  using decode_encoded_prefix [of pad P "[]"] by simp

section \<open>Broadcasting\<close>

lemma take_sizeof_serialize [simp]: "take sizeof_Packet (serialize pad p) = serialize pad p"
  by (simp add: length_serialize)

lemma INIT_neq_ACTION [simp]: "INIT_CONNECTION \<noteq> ACTION_EVENT" "ACTION_EVENT \<noteq> INIT_CONNECTION"
  by (simp_all add: INIT_CONNECTION_def ACTION_EVENT_def)

text \<open>
  C4. A broadcast builds the packet of kind \<open>ACTION_EVENT\<close> from \<open>my_attack\<close>, \<open>my_damage\<close>,
  \<open>my_done\<close> and \<open>my_headPose\<close>, and writes its one encoding to every session of the table.
  Afterwards \<open>my_attack\<close> and \<open>my_damage\<close> are \<open>(-1, -1)\<close>; \<open>my_headPose\<close>, \<open>my_done\<close>, the
  session table and the five incoming members are as before.
\<close>

theorem sendActionPackets_broadcast:
  "sent (network (sendActionPackets s)) =
     sent (network s) @
     map (\<lambda>(ident, h).
            (ident, serialize (uninit_pad s 0)
               \<lparr>packet_type = ACTION_EVENT, attack = my_attack s, damage = my_damage s,
                done_flag = my_done s, headPose = my_headPose s\<rparr>))
         (sessions (network s)) \<and>
   sessions (network (sendActionPackets s)) = sessions (network s) \<and>
   my_attack (sendActionPackets s) = (-1, -1) \<and>
   my_damage (sendActionPackets s) = (-1, -1) \<and>
   my_headPose (sendActionPackets s) = my_headPose s \<and>
   my_done (sendActionPackets s) = my_done s \<and>
   other_attack (sendActionPackets s) = other_attack s \<and>
   other_damage (sendActionPackets s) = other_damage s \<and>
   other_headPose (sendActionPackets s) = other_headPose s \<and>
   other_done (sendActionPackets s) = other_done s \<and>
   game_mode (sendActionPackets s) = game_mode s"
  by (simp add: sendActionPackets_def Let_def sendToAll_def)

section \<open>Handling one record\<close>

text \<open>
  C8. Handling a record of kind \<open>INIT_CONNECTION\<close> changes none of the five incoming
  members and makes one broadcast of the outgoing state: every session of the table is
  written once, all with the same bytes.
\<close>

theorem handle_packet_init:
  "packet_type p = INIT_CONNECTION \<Longrightarrow>
   other_attack (handle_packet p s) = other_attack s \<and>
   other_damage (handle_packet p s) = other_damage s \<and>
   other_headPose (handle_packet p s) = other_headPose s \<and>
   other_done (handle_packet p s) = other_done s \<and>
   game_mode (handle_packet p s) = game_mode s \<and>
   sent (network (handle_packet p s)) = sent (network s) @ broadcast_writes s"
  by (simp add: handle_packet_def sendActionPackets_def Let_def sendToAll_def broadcast_writes_def)

theorem handle_packet_init_witness:
  "packet_type init_packet = INIT_CONNECTION \<and>
   other_attack (handle_packet init_packet example_game) = (-1, -1) \<and>
   game_mode (handle_packet init_packet example_game) \<and>
   sent (network (handle_packet init_packet example_game)) =
     [(0, serialize wire_pad (action_packet (5, 6) (-1, -1)\<lparr>done_flag := False\<rparr>)),
      (1, serialize wire_pad (action_packet (5, 6) (-1, -1)\<lparr>done_flag := False\<rparr>))]"
  using handle_packet_init [of init_packet example_game]
  by (simp add: init_packet_def example_game_def two_sessions_def ServerGame_new_def
      broadcast_writes_def action_packet_def)

text \<open>
  C2, as the code has it. Handling a record of kind \<open>ACTION_EVENT\<close>: when the first
  coordinate of its attack is not \<open>-1\<close>, \<open>other_attack\<close> becomes that attack and \<open>game_mode\<close>
  becomes true, otherwise both keep their values; when the first coordinate of its damage
  is not \<open>-1\<close>, \<open>other_damage\<close> becomes that damage, otherwise it keeps its value;
  \<open>other_done\<close> and \<open>other_headPose\<close> always become the record's; and one broadcast of the
  outgoing state follows.
\<close>

theorem handle_packet_action:
  "packet_type p = ACTION_EVENT \<Longrightarrow>
   other_attack (handle_packet p s) = (if fst (attack p) = -1 then other_attack s else attack p) \<and>
   game_mode (handle_packet p s) = (if fst (attack p) = -1 then game_mode s else True) \<and>
   other_damage (handle_packet p s) = (if fst (damage p) = -1 then other_damage s else damage p) \<and>
   other_done (handle_packet p s) = done_flag p \<and>
   other_headPose (handle_packet p s) = headPose p \<and>
   sent (network (handle_packet p s)) = sent (network s) @ broadcast_writes s"
  by (simp add: handle_packet_def sendActionPackets_def Let_def sendToAll_def broadcast_writes_def
)

theorem handle_packet_action_witness:
  "packet_type (action_packet (3, 4) (-1, -1)) = ACTION_EVENT \<and>
   other_attack (handle_packet (action_packet (3, 4) (-1, -1)) waiting_game) = (3, 4) \<and>
   game_mode (handle_packet (action_packet (3, 4) (-1, -1)) waiting_game) \<and>
   other_damage (handle_packet (action_packet (3, 4) (-1, -1)) waiting_game) = (-1, -1) \<and>
   other_done (handle_packet (action_packet (3, 4) (-1, -1)) waiting_game) \<and>
   length (sent (network (handle_packet (action_packet (3, 4) (-1, -1)) waiting_game))) = 2"
  using handle_packet_action [of "action_packet (3, 4) (-1, -1)" waiting_game]
  by (simp add: action_packet_def waiting_game_def example_game_def two_sessions_def
      ServerGame_new_def broadcast_writes_def)

text \<open>
  C2, as the spec words it, fails: the attack \<open>(-1, 5)\<close> is not the sentinel \<open>(-1, -1)\<close>, yet
  handling it leaves \<open>other_attack\<close> at its old value and \<open>game_mode\<close> false.
\<close>

theorem handle_packet_sentinel_counterexample:
  "packet_type (action_packet (-1, 5) (-1, -1)) = ACTION_EVENT \<and>
   attack (action_packet (-1, 5) (-1, -1)) \<noteq> (-1, -1) \<and>
   other_attack (handle_packet (action_packet (-1, 5) (-1, -1)) waiting_game) \<noteq>
     attack (action_packet (-1, 5) (-1, -1)) \<and>
   \<not> game_mode (handle_packet (action_packet (-1, 5) (-1, -1)) waiting_game)"
  by (simp add: action_packet_def waiting_game_def example_game_def two_sessions_def
      ServerGame_new_def handle_packet_def sendActionPackets_def sendToAll_def Let_def)

text \<open>
  C9. For a record of kind \<open>ACTION_EVENT\<close>, only the first coordinate decides. An attack
  \<open>(-1, y)\<close> leaves \<open>other_attack\<close> and \<open>game_mode\<close> as they were, for any \<open>y\<close>; an attack
  \<open>(x, y)\<close> with \<open>x\<close> other than \<open>-1\<close> is stored in \<open>other_attack\<close> whatever \<open>x\<close> and \<open>y\<close> are,
  valid grid cell or not. Likewise for the damage and \<open>other_damage\<close>.
\<close>

theorem handle_packet_first_coordinate:
  "packet_type p = ACTION_EVENT \<Longrightarrow>
   (attack p = (x, y) \<longrightarrow>
      (x = -1 \<longrightarrow> other_attack (handle_packet p s) = other_attack s \<and>
                 game_mode (handle_packet p s) = game_mode s) \<and>
      (x \<noteq> -1 \<longrightarrow> other_attack (handle_packet p s) = (x, y))) \<and>
   (damage p = (u, v) \<longrightarrow>
      (u = -1 \<longrightarrow> other_damage (handle_packet p s) = other_damage s) \<and>
      (u \<noteq> -1 \<longrightarrow> other_damage (handle_packet p s) = (u, v)))"
  by (simp add: handle_packet_def sendActionPackets_def sendToAll_def Let_def)

theorem handle_packet_first_coordinate_witness:
  "packet_type (action_packet (-1, 7) (3, -2)) = ACTION_EVENT \<and>
   other_attack (handle_packet (action_packet (-1, 7) (3, -2)) waiting_game) = (-1, -1) \<and>
   \<not> game_mode (handle_packet (action_packet (-1, 7) (3, -2)) waiting_game) \<and>
   other_damage (handle_packet (action_packet (-1, 7) (3, -2)) waiting_game) = (3, -2) \<and>
   packet_type (action_packet (3, -2) (-1, 7)) = ACTION_EVENT \<and>
   other_attack (handle_packet (action_packet (3, -2) (-1, 7)) waiting_game) = (3, -2) \<and>
   other_damage (handle_packet (action_packet (3, -2) (-1, 7)) waiting_game) = (-1, -1)"
  using handle_packet_first_coordinate [of "action_packet (-1, 7) (3, -2)" "-1" 7 waiting_game 3 "-2"]
    handle_packet_first_coordinate [of "action_packet (3, -2) (-1, 7)" 3 "-2" waiting_game "-1" 7]
  by (simp add: action_packet_def waiting_game_def example_game_def two_sessions_def
      ServerGame_new_def)

subsection \<open>What handling a record keeps\<close>

lemma handle_packet_network_data [simp]: "network_data (handle_packet p s) = network_data s"
  by (simp add: handle_packet_def sendActionPackets_def Let_def)

lemma handle_packet_sessions [simp]:
  "sessions (network (handle_packet p s)) = sessions (network s)"
  by (simp add: handle_packet_def sendActionPackets_def sendToAll_def Let_def)

lemma handle_packet_client_id [simp]: "client_id (handle_packet p s) = client_id s"
  by (simp add: handle_packet_def sendActionPackets_def Let_def)

lemma handle_packet_game_mode: "game_mode s \<Longrightarrow> game_mode (handle_packet p s)"
  by (simp add: handle_packet_def sendActionPackets_def Let_def)

lemma other_attack_action:
  "other_attack (handle_packet (action_packet (a, b) d) s) = (if a = -1 then other_attack s else (a, b))"
  by (simp add: handle_packet_def action_packet_def sendActionPackets_def Let_def)

section \<open>The record walk\<close>

lemma walk_limit_eq: "walk_limit = 11363 * sizeof_Packet"
  by (simp add: walk_limit_def MAX_PACKET_SIZE_def sizeof_Packet_def)

lemma record_count_less: "k < record_count L \<longleftrightarrow> k * sizeof_Packet < L"
proof -
  define q r where "q = L div sizeof_Packet" and "r = L mod sizeof_Packet"
  have L: "L = q * sizeof_Packet + r" and r: "r < sizeof_Packet"
    by (simp_all add: q_def r_def sizeof_Packet_def)
  have "k * sizeof_Packet < q * sizeof_Packet + r \<longleftrightarrow> k < q \<or> (k = q \<and> 0 < r)"
  proof (cases "k < q")
    case True
    then have "Suc k \<le> q" by simp
    then have "Suc k * sizeof_Packet \<le> q * sizeof_Packet"
      by (rule mult_le_mono1)
    then show ?thesis using True by (simp add: sizeof_Packet_def)
  next
    case False
    then have "q \<le> k" by simp
    show ?thesis
    proof (cases "k = q")
      case True
      then show ?thesis by simp
    next
      case False
      with \<open>q \<le> k\<close> have "Suc q \<le> k" by simp
      then have "Suc q * sizeof_Packet \<le> k * sizeof_Packet"
        by (rule mult_le_mono1)
      then show ?thesis using r False \<open>q \<le> k\<close> by simp
    qed
  qed
  moreover have "record_count L = q + (if r = 0 then 0 else 1)"
    by (simp add: record_count_def q_def r_def)
  ultimately show ?thesis
    using L by auto
qed

lemma record_within_buffer:
  assumes "L \<le> walk_limit" "k < record_count L"
  shows "k * sizeof_Packet + sizeof_Packet \<le> MAX_PACKET_SIZE"
proof -
  have "k * sizeof_Packet < L"
    using assms(2) by (simp add: record_count_less)
  also have "L \<le> 11363 * sizeof_Packet"
    using assms(1) by (simp add: walk_limit_eq)
  finally have "k < 11363"
    by (simp only: mult_less_cancel2)
  then have "Suc k \<le> 11363"
    by simp
  then have "Suc k * sizeof_Packet \<le> 11363 * sizeof_Packet"
    by (rule mult_le_mono1)
  then show ?thesis
    by (simp add: sizeof_Packet_def MAX_PACKET_SIZE_def)
qed

lemma process_records_stop: "\<not> i < L \<Longrightarrow> process_records i L s = Inr s"
  by (subst process_records.simps) simp

lemma process_records_step:
  "i < L \<Longrightarrow> i + sizeof_Packet \<le> MAX_PACKET_SIZE \<Longrightarrow>
   process_records i L s =
     process_records (i + sizeof_Packet) L
       (handle_packet (deserialize (read_bytes (network_data s) i sizeof_Packet)) s)"
  by (subst process_records.simps) simp

lemma process_records_overrun:
  "i < L \<Longrightarrow> \<not> i + sizeof_Packet \<le> MAX_PACKET_SIZE \<Longrightarrow>
   process_records i L s = Inl Read_past_buffer"
  by (subst process_records.simps) (simp only: if_True if_False)

lemma process_records_from:
  assumes "L \<le> walk_limit"
  shows "k \<le> record_count L \<Longrightarrow>
         process_records (k * sizeof_Packet) L s =
           Inr (fold handle_packet (map (record_at (network_data s)) [k ..< record_count L]) s)"
proof (induction "record_count L - k" arbitrary: k s)
  case 0
  then have "k = record_count L" by simp
  then have "\<not> k * sizeof_Packet < L"
    using record_count_less [of k L] by simp
  then show ?case
    using \<open>k = record_count L\<close> by (simp add: process_records_stop)
next
  case (Suc d)
  then have less: "k < record_count L" by simp
  then have run: "k * sizeof_Packet < L"
    by (simp add: record_count_less)
  have fits: "k * sizeof_Packet + sizeof_Packet \<le> MAX_PACKET_SIZE"
    using assms less by (rule record_within_buffer)
  let ?s = "handle_packet (record_at (network_data s) k) s"
  have "process_records (k * sizeof_Packet) L s = process_records (Suc k * sizeof_Packet) L ?s"
    using process_records_step [OF run fits, of s]
    by (simp add: record_at_def add.commute)
  also have "\<dots> = Inr (fold handle_packet
                 (map (record_at (network_data ?s)) [Suc k ..< record_count L]) ?s)"
    using Suc.hyps(1) [of "Suc k" ?s] Suc.hyps(2) less by simp
  finally show ?case
    using less by (simp add: upt_conv_Cons)
qed

lemma record_count_whole: "record_count (k * sizeof_Packet) = k"
  by (simp add: record_count_def sizeof_Packet_def)

lemma read_bytes_buffer_of:
  "read_bytes (buffer_of (xs @ ys @ zs)) (length xs) (length ys) = ys"
  by (rule nth_equalityI) (simp_all add: read_bytes_def buffer_of_def nth_append)

lemma record_at_buffer_of:
  assumes "length xs = j * sizeof_Packet"
  shows "record_at (buffer_of (xs @ serialize pad p @ zs)) j = p"
proof -
  have "read_bytes (buffer_of (xs @ serialize pad p @ zs)) (length xs) (length (serialize pad p))
        = serialize pad p"
    by (rule read_bytes_buffer_of)
  then show ?thesis
    using decode_encoded_prefix [of pad p "[]"]
    by (simp add: record_at_def assms length_serialize)
qed

lemma records_at_Suc: "records_at mem (Suc n) = records_at mem n @ [record_at mem n]"
  by (simp add: records_at_def)

lemma records_at_0: "records_at mem 0 = []"
  by (simp add: records_at_def)

lemma two_record_game_records:
  "record_at (network_data two_record_game) 0 = action_packet (1, 2) (-1, -1)"
  "record_at (network_data two_record_game) (Suc 0) = action_packet (3, 4) (-1, -1)"
proof -
  show "record_at (network_data two_record_game) 0 = action_packet (1, 2) (-1, -1)"
    using record_at_buffer_of [of "[]" 0 wire_pad "action_packet (1, 2) (-1, -1)"
        "serialize wire_pad (action_packet (3, 4) (-1, -1))"]
    by (simp add: two_record_game_def)
  show "record_at (network_data two_record_game) (Suc 0) = action_packet (3, 4) (-1, -1)"
    using record_at_buffer_of [of "serialize wire_pad (action_packet (1, 2) (-1, -1))" "Suc 0"
        wire_pad "action_packet (3, 4) (-1, -1)" "[]"]
    by (simp add: two_record_game_def length_serialize)
qed

text \<open>
  C3, as the code has it. Up to \<open>walk_limit\<close> received bytes, the walk handles
  \<open>record_count L\<close> records, in arrival order: the \<open>L div sizeof(Packet)\<close> whole records
  and, when remainder bytes are left, one more record, decoded from the remainder followed
  by the bytes the buffer holds after it. The remainder is not dropped. A buffer of three
  whole records gives exactly these three, in arrival order.
\<close>

theorem process_records_walk:
  "L \<le> walk_limit \<Longrightarrow>
   process_records 0 L s =
     Inr (fold handle_packet (records_at (network_data s) (record_count L)) s) \<and>
   process_records 0 (3 * sizeof_Packet) s =
     Inr (fold handle_packet
            [record_at (network_data s) 0, record_at (network_data s) 1,
             record_at (network_data s) 2] s)"
proof -
  assume limit: "L \<le> walk_limit"
  have three: "3 * sizeof_Packet \<le> walk_limit"
    by (simp add: walk_limit_eq)
  have list: "[0 ..< 3] = [0, 1, 2]"
    by (simp add: upt_rec)
  have "process_records 0 L s =
          Inr (fold handle_packet (records_at (network_data s) (record_count L)) s)"
    using process_records_from [OF limit, of 0 s] by (simp add: records_at_def)
  moreover have "process_records 0 (3 * sizeof_Packet) s =
     Inr (fold handle_packet
            [record_at (network_data s) 0, record_at (network_data s) 1,
             record_at (network_data s) 2] s)"
    using process_records_from [OF three, of 0 s] record_count_whole [of 3]
    by (simp add: list)
  ultimately show ?thesis by simp
qed

theorem process_records_walk_witness:
  "Suc sizeof_Packet \<le> walk_limit \<and>
   process_records 0 (Suc sizeof_Packet) two_record_game =
     Inr (fold handle_packet [action_packet (1, 2) (-1, -1), action_packet (3, 4) (-1, -1)]
            two_record_game)"
proof -
  have limit: "Suc sizeof_Packet \<le> walk_limit"
    by (simp add: walk_limit_eq sizeof_Packet_def)
  have count: "record_count (Suc sizeof_Packet) = Suc (Suc 0)"
    by (simp add: record_count_def sizeof_Packet_def)
  show ?thesis
    using process_records_walk [OF limit, of two_record_game] limit
    by (simp add: count records_at_Suc records_at_0 two_record_game_records)
qed

text \<open>
  C3, as the spec words it, fails. Of \<open>sizeof(Packet) + 1\<close> received bytes the spec keeps
  \<open>(sizeof(Packet) + 1) div sizeof(Packet) = 1\<close> record and drops the last byte; the walk
  handles a second record, read at offset \<open>sizeof(Packet)\<close>.
\<close>

theorem process_records_floor_counterexample:
  "process_records 0 (Suc sizeof_Packet) two_record_game \<noteq>
     Inr (fold handle_packet
            (records_at (network_data two_record_game) ((Suc sizeof_Packet) div sizeof_Packet))
            two_record_game)"
proof
  let ?g = two_record_game
  assume eq: "process_records 0 (Suc sizeof_Packet) ?g =
     Inr (fold handle_packet (records_at (network_data ?g) ((Suc sizeof_Packet) div sizeof_Packet)) ?g)"
  have limit: "Suc sizeof_Packet \<le> walk_limit"
    by (simp add: walk_limit_eq sizeof_Packet_def)
  have count: "record_count (Suc sizeof_Packet) = Suc (Suc 0)"
    by (simp add: record_count_def sizeof_Packet_def)
  have floor: "(Suc sizeof_Packet) div sizeof_Packet = Suc 0"
    by (simp add: sizeof_Packet_def)
  have "process_records 0 (Suc sizeof_Packet) ?g =
        Inr (fold handle_packet (records_at (network_data ?g) (Suc (Suc 0))) ?g)"
    using process_records_from [OF limit, of 0 ?g] by (simp add: count records_at_def)
  with eq have "fold handle_packet (records_at (network_data ?g) (Suc (Suc 0))) ?g =
                fold handle_packet (records_at (network_data ?g) (Suc 0)) ?g"
    by (simp add: floor)
  then have "other_attack (fold handle_packet (records_at (network_data ?g) (Suc (Suc 0))) ?g) =
             other_attack (fold handle_packet (records_at (network_data ?g) (Suc 0)) ?g)"
    by simp
  then show False
    by (simp add: records_at_Suc records_at_0 two_record_game_records other_attack_action)
qed

section \<open>Receiving\<close>

lemma fold_handle_packet_keeps [simp]:
  "network_data (fold handle_packet ps s) = network_data s"
  "sessions (network (fold handle_packet ps s)) = sessions (network s)"
  "client_id (fold handle_packet ps s) = client_id s"
  by (induction ps arbitrary: s) simp_all

lemma fold_handle_packet_game_mode: "game_mode s \<Longrightarrow> game_mode (fold handle_packet ps s)"
  by (induction ps arbitrary: s) (simp_all add: handle_packet_game_mode)

lemma process_records_keeps:
  "process_records i L s = Inr s' \<Longrightarrow>
   client_id s' = client_id s \<and> sessions (network s') = sessions (network s) \<and>
   (game_mode s \<longrightarrow> game_mode s')"
proof (induction i L s rule: process_records.induct)
  case (1 i L s)
  show ?case
  proof (cases "i < L")
    case False
    then show ?thesis using "1.prems" by (simp add: process_records_stop)
  next
    case True
    show ?thesis
    proof (cases "i + sizeof_Packet \<le> MAX_PACKET_SIZE")
      case False
      then show ?thesis using True "1.prems" by (simp add: process_records_overrun)
    next
      case fits: True
      let ?s = "handle_packet (deserialize (read_bytes (network_data s) i sizeof_Packet)) s"
      have "process_records (i + sizeof_Packet) L ?s = Inr s'"
        using "1.prems" process_records_step [OF True fits, of s] by simp
      then have "client_id s' = client_id ?s \<and> sessions (network s') = sessions (network ?s) \<and>
                 (game_mode ?s \<longrightarrow> game_mode s')"
        using "1.IH" [OF True fits] by simp
      then show ?thesis
        by (simp add: handle_packet_game_mode)
    qed
  qed
qed

lemma receive_loop_keeps:
  "receive_loop avail xs s = Inr s' \<Longrightarrow>
   client_id s' = client_id s \<and> sessions (network s') = sessions (network s) \<and>
   (game_mode s \<longrightarrow> game_mode s')"
proof (induction xs arbitrary: s)
  case Nil
  then show ?case by simp
next
  case (Cons x xs)
  obtain ident h where x: "x = (ident, h)" by (cases x)
  let ?s1 = "s\<lparr>network_data := store_bytes (avail ident) (network_data s)\<rparr>"
  from Cons.prems have small: "\<not> length (avail ident) > MAX_PACKET_SIZE"
    by (auto simp: x receiveData_def Let_def split: if_splits)
  show ?case
  proof (cases "avail ident = []")
    case True
    then have "receive_loop avail xs ?s1 = Inr s'"
      using Cons.prems by (simp add: x receiveData_def Let_def)
    from Cons.IH [OF this] show ?thesis by simp
  next
    case False
    then obtain s2 where s2: "process_records 0 (length (avail ident)) ?s1 = Inr s2"
      and rest: "receive_loop avail xs s2 = Inr s'"
      using Cons.prems small
      by (auto simp: x receiveData_def Let_def split: sum.splits)
    from process_records_keeps [OF s2] Cons.IH [OF rest] show ?thesis by simp
  qed
qed

text \<open>
  C10. \<open>game_mode\<close> is true after construction, and nothing in the receive, merge and
  broadcast code clears it: a broadcast keeps it, handling a record keeps it or sets it,
  and so do \<open>receiveFromClients\<close> and \<open>update\<close> whenever they return, whatever arrives.
\<close>

theorem game_mode_never_cleared:
  "game_mode (ServerGame_new uninit pads) \<and>
   game_mode (sendActionPackets s) = game_mode s \<and>
   (game_mode (handle_packet p s) = game_mode s \<or> game_mode (handle_packet p s)) \<and>
   (receiveFromClients avail s = Inr s' \<longrightarrow> game_mode s' = game_mode s \<or> game_mode s') \<and>
   (update env s = Inr t \<longrightarrow> game_mode t = game_mode s \<or> game_mode t)"
proof -
  have "game_mode (ServerGame_new uninit pads)"
    by (simp add: ServerGame_new_def)
  moreover have "game_mode (sendActionPackets s) = game_mode s"
    by (simp add: sendActionPackets_def Let_def)
  moreover have "game_mode (handle_packet p s) = game_mode s \<or> game_mode (handle_packet p s)"
    using handle_packet_game_mode [of s p] by auto
  moreover have "receiveFromClients avail s = Inr s' \<longrightarrow> game_mode s' = game_mode s \<or> game_mode s'"
    using receive_loop_keeps [of avail "sessions (network s)" s s']
    by (auto simp: receiveFromClients_def)
  moreover have "update env s = Inr t \<longrightarrow> game_mode t = game_mode s \<or> game_mode t"
  proof
    assume run: "update env s = Inr t"
    obtain accepted nw where acc: "acceptNewClient (pending env) (client_id s) (network s) = (accepted, nw)"
      by (cases "acceptNewClient (pending env) (client_id s) (network s)")
    let ?s2 = "if accepted then s\<lparr>network := nw, client_id := client_id s + 1\<rparr> else s\<lparr>network := nw\<rparr>"
    have "receive_loop (incoming env) (sessions (network ?s2)) ?s2 = Inr t"
      using run acc by (simp add: update_def receiveFromClients_def Let_def split: if_splits)
    from receive_loop_keeps [OF this] show "game_mode t = game_mode s \<or> game_mode t"
      by (auto split: if_splits)
  qed
  ultimately show ?thesis by simp
qed

lemma walk_limit_le_MAX: "walk_limit \<le> MAX_PACKET_SIZE"
  by (simp add: walk_limit_def)

lemma record_count_0 [simp]: "record_count 0 = 0"
  by (simp add: record_count_def)

lemma receive_loop_Cons:
  assumes "length (avail ident) \<le> walk_limit"
  shows "receive_loop avail ((ident, h) # rest) s =
         receive_loop avail rest
           (fold handle_packet
              (records_at (store_bytes (avail ident) (network_data s))
                 (record_count (length (avail ident))))
              (s\<lparr>network_data := store_bytes (avail ident) (network_data s)\<rparr>))"
proof -
  let ?s1 = "s\<lparr>network_data := store_bytes (avail ident) (network_data s)\<rparr>"
  have small: "\<not> length (avail ident) > MAX_PACKET_SIZE"
    using assms walk_limit_le_MAX by simp
  show ?thesis
  proof (cases "avail ident = []")
    case True
    then show ?thesis
      by (simp add: receiveData_def Let_def records_at_0)
  next
    case False
    have "process_records 0 (length (avail ident)) ?s1 =
          Inr (fold handle_packet
                 (records_at (network_data ?s1) (record_count (length (avail ident)))) ?s1)"
      using process_records_from [OF assms, of 0 ?s1] by (simp add: records_at_def)
    then show ?thesis
      using False small by (simp add: receiveData_def Let_def)
  qed
qed

lemma store_bytes_Nil [simp]: "store_bytes [] mem = mem"
  by (simp add: store_bytes_def)

lemma read_bytes_store_bytes:
  "n \<le> length bs \<Longrightarrow> read_bytes (store_bytes bs mem) 0 n = take n bs"
  by (rule nth_equalityI) (simp_all add: read_bytes_def store_bytes_def)

lemma record_at_store_bytes:
  "record_at (store_bytes (serialize pad p @ rest) mem) 0 = p"
  using read_bytes_store_bytes [of sizeof_Packet "serialize pad p @ rest" mem]
    decode_encoded_prefix [of pad p "[]"]
  by (simp add: record_at_def length_serialize)

lemma record_count_sizeof [simp]: "record_count sizeof_Packet = Suc 0"
  using record_count_whole [of 1] by simp

lemma sizeof_le_walk_limit [simp]: "sizeof_Packet \<le> walk_limit"
  by (simp add: walk_limit_eq)

theorem game_mode_never_cleared_witness:
  "game_mode example_game \<and>
   map_sum id game_mode (update one_record_input example_game) = Inr True \<and>
   map_sum id other_attack (update one_record_input example_game) = Inr (3, 4)"
proof -
  let ?A = "action_packet (3, 4) (-1, -1)"
  let ?t = "handle_packet ?A
              (example_game\<lparr>network_data :=
                 store_bytes (serialize wire_pad ?A) (network_data example_game)\<rparr>)"
  have first: "record_at (store_bytes (serialize wire_pad ?A) mem) 0 = ?A" for mem
    using record_at_store_bytes [of wire_pad ?A "[]" mem] by simp
  have run: "update one_record_input example_game = Inr ?t"
    by (simp add: update_def acceptNewClient_def one_record_input_def receiveFromClients_def
        example_game_def two_sessions_def receive_loop_Cons length_serialize
        records_at_Suc records_at_0 first Let_def del: receive_loop.simps(2))
  have start: "game_mode example_game"
    by (simp add: example_game_def ServerGame_new_def)
  have "game_mode ?t = game_mode example_game \<or> game_mode ?t"
    using game_mode_never_cleared [of "\<lambda>k. 0" "\<lambda>n. wire_pad" example_game ?A "\<lambda>ident. []" example_game
        one_record_input ?t] run by simp
  with start have "game_mode ?t" by simp
  moreover have "other_attack ?t = (3, 4)"
    by (simp add: other_attack_action)
  ultimately show ?thesis
    using run start by simp
qed

lemma read_bytes_store_bytes_short:
  "length bs \<le> n \<Longrightarrow>
   read_bytes (store_bytes bs mem) 0 n = bs @ read_bytes mem (length bs) (n - length bs)"
  by (rule nth_equalityI) (auto simp: read_bytes_def store_bytes_def nth_append)

lemma record_count_short: "0 < L \<Longrightarrow> L < sizeof_Packet \<Longrightarrow> record_count L = Suc 0"
  by (simp add: record_count_def)

lemma process_records_short:
  assumes "0 < L" "L < sizeof_Packet"
  shows "process_records 0 L s = Inr (handle_packet (record_at (network_data s) 0) s)"
proof -
  have "L \<le> walk_limit"
    using assms(2) sizeof_le_walk_limit by linarith
  from process_records_from [OF this, of 0 s] show ?thesis
    by (simp add: record_count_short [OF assms] upt_rec)
qed

lemma receive_loop_short:
  assumes "avail ident = bs" "0 < length bs" "length bs < sizeof_Packet"
  shows "receive_loop avail ((ident, h) # rest) s =
         receive_loop avail rest
           (handle_packet
              (deserialize (bs @ read_bytes (network_data s) (length bs) (sizeof_Packet - length bs)))
              (s\<lparr>network_data := store_bytes bs (network_data s)\<rparr>))"
proof -
  have "length bs \<le> walk_limit"
    using assms(3) sizeof_le_walk_limit by (rule less_imp_le [THEN le_trans])
  then have limit: "length (avail ident) \<le> walk_limit"
    by (simp add: assms(1))
  have "record_at (store_bytes bs (network_data s)) 0 =
        deserialize (bs @ read_bytes (network_data s) (length bs) (sizeof_Packet - length bs))"
    using assms(3) by (simp add: record_at_def read_bytes_store_bytes_short)
  then show ?thesis
    using receive_loop_Cons [of avail ident h rest s] limit assms
    by (simp add: record_count_short records_at_Suc records_at_0)
qed

text \<open>
  C6, as the code has it. \<open>deserialize\<close> cannot fail. When a session delivers \<open>r\<close> bytes
  with \<open>0 < r < sizeof(Packet)\<close>, the walk decodes one record, made of these \<open>r\<close> bytes
  followed by the \<open>sizeof(Packet) - r\<close> bytes that the buffer already held after them, and
  handles it as any other record; the loop then goes on to the next session.
\<close>

theorem undersized_record_handled:
  "avail ident = bs \<Longrightarrow> 0 < length bs \<Longrightarrow> length bs < sizeof_Packet \<Longrightarrow>
   process_records 0 (length bs) s = Inr (handle_packet (record_at (network_data s) 0) s) \<and>
   receive_loop avail ((ident, h) # rest) s =
     receive_loop avail rest
       (handle_packet
          (deserialize (bs @ read_bytes (network_data s) (length bs) (sizeof_Packet - length bs)))
          (s\<lparr>network_data := store_bytes bs (network_data s)\<rparr>))"
  using process_records_short [of "length bs" s] receive_loop_short [of avail ident bs h rest s]
  by simp

lemma serialize_action_first:
  assumes "packet_type p = ACTION_EVENT"
  obtains rest where "serialize pad p = 1 # rest"
proof -
  have "serialize pad p = 1 # tl (serialize pad p)"
    by (simp add: serialize_def bytes_of_word32_def assms ACTION_EVENT_def)
  then show ?thesis by (rule that)
qed

lemma stale_record:
  "deserialize ([1] @ read_bytes (network_data stale_game) (length [1 :: byte])
                  (sizeof_Packet - length [1 :: byte])) = action_packet (3, 4) (-1, -1)"
proof -
  let ?A = "action_packet (3, 4) (-1, -1)"
  obtain rest where rest: "serialize wire_pad ?A = 1 # rest"
    by (rule serialize_action_first [of ?A wire_pad]) (simp add: action_packet_def)
  have len: "length rest = sizeof_Packet - 1"
    using length_serialize [of wire_pad ?A] rest by simp
  have "read_bytes (buffer_of ([1] @ rest @ [])) (length [1 :: byte]) (length rest) = rest"
    by (rule read_bytes_buffer_of)
  then have "[1] @ read_bytes (network_data stale_game) (length [1 :: byte])
                    (sizeof_Packet - length [1 :: byte]) = serialize wire_pad ?A"
    by (simp add: stale_game_def rest len)
  then show ?thesis
    using decode_encoded_prefix [of wire_pad ?A "[]"] by simp
qed

theorem undersized_record_handled_witness:
  "one_byte_input 0 = [1] \<and> 0 < length [1 :: byte] \<and> length [1 :: byte] < sizeof_Packet \<and>
   receive_loop one_byte_input [(0, 100)] stale_game =
     Inr (handle_packet (action_packet (3, 4) (-1, -1))
            (stale_game\<lparr>network_data := store_bytes [1] (network_data stale_game)\<rparr>))"
proof -
  have a: "one_byte_input 0 = [1]"
    by (simp add: one_byte_input_def)
  have b: "0 < length [1 :: byte]" and c: "length [1 :: byte] < sizeof_Packet"
    by (simp_all add: sizeof_Packet_def)
  show ?thesis
    using undersized_record_handled [of one_byte_input 0 "[1]" stale_game 100 "[]"] a b c
    by (simp only: stale_record receive_loop.simps(1) simp_thms)
qed

text \<open>
  C6, as the spec words it, fails. Session 0 delivers one byte, fewer than
  \<open>sizeof(Packet)\<close>; nothing fails and the record is not discarded: \<open>other_attack\<close>, which
  was \<open>(-1, -1)\<close>, is \<open>(3, 4)\<close> afterwards, taken from the bytes left in the buffer.
\<close>

theorem undersized_record_counterexample:
  "length (one_byte_input 0) < sizeof_Packet \<and>
   other_attack stale_game = (-1, -1) \<and>
   map_sum id other_attack (receiveFromClients one_byte_input stale_game) = Inr (3, 4)"
proof -
  have a: "one_byte_input 0 = [1]"
    by (simp add: one_byte_input_def)
  have b: "0 < length [1 :: byte]" and c: "length [1 :: byte] < sizeof_Packet"
    by (simp_all add: sizeof_Packet_def)
  have idle: "length (one_byte_input 1) \<le> walk_limit" "one_byte_input 1 = []"
    by (simp_all add: one_byte_input_def)
  let ?t = "handle_packet (action_packet (3, 4) (-1, -1))
              (stale_game\<lparr>network_data := store_bytes [1] (network_data stale_game)\<rparr>)"
  have "receive_loop one_byte_input [(0, 100), (1, 101)] stale_game =
        receive_loop one_byte_input [(1, 101)] ?t"
    using receive_loop_short [of one_byte_input 0 "[1]" 100 "[(1, 101)]" stale_game] a b c
    by (simp only: stale_record simp_thms)
  also have "\<dots> = Inr ?t"
    using receive_loop_Cons [of one_byte_input 1 101 "[]" ?t] idle(1)
    by (simp add: idle(2) records_at_0 del: receive_loop.simps(2))
  finally have "receiveFromClients one_byte_input stale_game = Inr ?t"
    by (simp add: receiveFromClients_def stale_game_def example_game_def two_sessions_def)
  moreover have "other_attack ?t = (3, 4)"
    by (simp add: other_attack_action)
  moreover have "other_attack stale_game = (-1, -1)"
    by (simp add: stale_game_def example_game_def ServerGame_new_def)
  ultimately show ?thesis
    using a c by simp
qed

section \<open>The order of merges and broadcasts\<close>

lemma sendActionPackets_steps:
  "map shape (event_log (sendActionPackets s)) = map shape (event_log s) @ [Send]"
  by (simp add: sendActionPackets_def Let_def)

lemma handle_packet_steps:
  "map shape (event_log (handle_packet p s)) = map shape (event_log s) @ record_steps p"
  by (simp add: handle_packet_def record_steps_def sendActionPackets_steps Let_def)

lemma fold_handle_packet_steps:
  "map shape (event_log (fold handle_packet ps s)) =
   map shape (event_log s) @ concat (map record_steps ps)"
  by (induction ps arbitrary: s) (simp_all add: handle_packet_steps)

lemma process_records_steps:
  assumes "L \<le> walk_limit"
  shows "\<exists>s'. process_records 0 L s = Inr s' \<and>
           map shape (event_log s') =
             map shape (event_log s) @
             concat (map record_steps (records_at (network_data s) (record_count L)))"
proof -
  have "process_records 0 L s =
        Inr (fold handle_packet (records_at (network_data s) (record_count L)) s)"
    using process_records_from [OF assms, of 0 s] by (simp add: records_at_def)
  then show ?thesis
    by (simp add: fold_handle_packet_steps)
qed

lemma receive_loop_steps:
  assumes "\<And>ident. length (avail ident) \<le> walk_limit"
  shows "\<exists>t. receive_loop avail xs s = Inr t \<and>
           map shape (event_log t) =
             map shape (event_log s) @ tick_steps avail xs (network_data s)"
proof (induction xs arbitrary: s)
  case Nil
  show ?case by simp
next
  case (Cons x xs)
  obtain ident h where x: "x = (ident, h)" by (cases x)
  let ?mem = "store_bytes (avail ident) (network_data s)"
  let ?recs = "records_at ?mem (record_count (length (avail ident)))"
  let ?s1 = "fold handle_packet ?recs (s\<lparr>network_data := ?mem\<rparr>)"
  have step: "receive_loop avail (x # xs) s = receive_loop avail xs ?s1"
    using receive_loop_Cons [of avail ident h xs s] assms [of ident] by (simp only: x)
  obtain t where t: "receive_loop avail xs ?s1 = Inr t"
    and log: "map shape (event_log t) =
              map shape (event_log ?s1) @ tick_steps avail xs (network_data ?s1)"
    using Cons.IH [of ?s1] by auto
  have "map shape (event_log ?s1) = map shape (event_log s) @ concat (map record_steps ?recs)"
    by (simp add: fold_handle_packet_steps)
  moreover have "network_data ?s1 = ?mem"
    by simp
  ultimately have "map shape (event_log t) =
                   map shape (event_log s) @ tick_steps avail (x # xs) (network_data s)"
    using log by (simp add: x)
  with step t show ?case by simp
qed

text \<open>
  C5, as the code has it. Within one call of \<open>receiveFromClients\<close> the sessions are served
  in table order and the records of each receive buffer are handled one at a time, in
  arrival order: an action record is merged and then at once answered by its broadcast,
  an init record is answered by its broadcast, before the next record is handled. The
  event log of the walk of one buffer, and of the whole call, is the concatenation of
  these per-record steps; merges and broadcasts alternate.
\<close>

theorem merge_broadcast_order:
  "L \<le> walk_limit \<Longrightarrow> (\<forall>ident. length (avail ident) \<le> walk_limit) \<Longrightarrow>
   (\<exists>s'. process_records 0 L s = Inr s' \<and>
          map shape (event_log s') =
            map shape (event_log s) @
            concat (map record_steps (records_at (network_data s) (record_count L)))) \<and>
   (\<exists>t. receiveFromClients avail s = Inr t \<and>
         map shape (event_log t) =
           map shape (event_log s) @ tick_steps avail (sessions (network s)) (network_data s))"
  using process_records_steps [of L s] receive_loop_steps [of avail "sessions (network s)" s]
  by (simp add: receiveFromClients_def)

lemma read_bytes_store_bytes_mid:
  "read_bytes (store_bytes (xs @ ys @ zs) mem) (length xs) (length ys) = ys"
  by (rule nth_equalityI) (simp_all add: read_bytes_def store_bytes_def nth_append)

lemma record_at_store_bytes_mid:
  assumes "length xs = j * sizeof_Packet"
  shows "record_at (store_bytes (xs @ serialize pad p @ zs) mem) j = p"
proof -
  have "read_bytes (store_bytes (xs @ serialize pad p @ zs) mem) (length xs)
          (length (serialize pad p)) = serialize pad p"
    by (rule read_bytes_store_bytes_mid)
  then show ?thesis
    using decode_encoded_prefix [of pad p "[]"]
    by (simp add: record_at_def assms length_serialize)
qed

lemma two_records_fit: "2 * sizeof_Packet \<le> walk_limit"
  by (simp add: walk_limit_eq)

lemma two_record_avail_fits: "length (two_record_avail ident) \<le> walk_limit"
  using two_records_fit by (simp add: two_record_avail_def length_serialize)

lemma two_record_avail_steps:
  "tick_steps two_record_avail [(0, 100), (1, 101)] mem =
     [Merge (action_packet (1, 2) (-1, -1)), Send, Merge (action_packet (3, 4) (-1, -1)), Send]"
proof -
  let ?A = "action_packet (1, 2) (-1, -1)"
  let ?B = "action_packet (3, 4) (-1, -1)"
  let ?bs = "serialize wire_pad ?A @ serialize wire_pad ?B"
  have len: "length ?bs = 2 * sizeof_Packet"
    by (simp add: length_serialize)
  have a: "record_at (store_bytes ?bs mem) 0 = ?A"
    using record_at_store_bytes_mid [of "[]" 0 wire_pad ?A "serialize wire_pad ?B" mem] by simp
  have b: "record_at (store_bytes ?bs mem) (Suc 0) = ?B"
    using record_at_store_bytes_mid [of "serialize wire_pad ?A" "Suc 0" wire_pad ?B "[]" mem]
    by (simp add: length_serialize)
  have recs: "records_at (store_bytes ?bs mem) (record_count (length ?bs)) = [?A, ?B]"
    using record_count_whole [of 2]
    by (simp only: len) (simp add: records_at_def upt_rec a b)
  have zero: "two_record_avail 0 = ?bs" and one: "two_record_avail 1 = []"
    by (simp_all add: two_record_avail_def)
  have kinds: "record_steps ?A = [Merge ?A, Send]" "record_steps ?B = [Merge ?B, Send]"
    by (simp_all add: record_steps_def action_packet_def)
  show ?thesis
    by (simp only: tick_steps.simps zero one recs) (simp add: kinds records_at_0)
qed

theorem merge_broadcast_order_witness:
  "2 * sizeof_Packet \<le> walk_limit \<and>
   map_sum id (map shape \<circ> event_log) (process_records 0 (2 * sizeof_Packet) two_record_game) =
     Inr [Merge (action_packet (1, 2) (-1, -1)), Send,
          Merge (action_packet (3, 4) (-1, -1)), Send] \<and>
   map_sum id (map shape \<circ> event_log) (receiveFromClients two_record_avail two_record_game) =
     Inr [Merge (action_packet (1, 2) (-1, -1)), Send,
          Merge (action_packet (3, 4) (-1, -1)), Send]"
proof -
  let ?A = "action_packet (1, 2) (-1, -1)"
  let ?B = "action_packet (3, 4) (-1, -1)"
  let ?steps = "[Merge ?A, Send, Merge ?B, Send]"
  have fits: "\<forall>ident. length (two_record_avail ident) \<le> walk_limit"
    using two_record_avail_fits by simp
  have empty: "map shape (event_log two_record_game) = []"
    by (simp add: two_record_game_def example_game_def ServerGame_new_def)
  have table: "sessions (network two_record_game) = [(0, 100), (1, 101)]"
    by (simp add: two_record_game_def example_game_def two_sessions_def)
  have recs: "records_at (network_data two_record_game) (record_count (2 * sizeof_Packet)) = [?A, ?B]"
    using record_count_whole [of 2]
    by (simp add: records_at_def upt_rec two_record_game_records)
  have kinds: "record_steps ?A = [Merge ?A, Send]" "record_steps ?B = [Merge ?B, Send]"
    by (simp_all add: record_steps_def action_packet_def)
  have walk: "concat (map record_steps
                (records_at (network_data two_record_game) (record_count (2 * sizeof_Packet)))) = ?steps"
    by (simp only: recs) (simp add: kinds)
  have tick: "tick_steps two_record_avail (sessions (network two_record_game))
                (network_data two_record_game) = ?steps"
    by (simp only: table two_record_avail_steps)
  have "(\<exists>s'. process_records 0 (2 * sizeof_Packet) two_record_game = Inr s' \<and>
              map shape (event_log s') = ?steps) \<and>
        (\<exists>t. receiveFromClients two_record_avail two_record_game = Inr t \<and>
             map shape (event_log t) = ?steps)"
    using merge_broadcast_order [OF two_records_fit fits, of two_record_game]
    by (simp only: walk tick empty append_Nil)
  then obtain s' t where s': "process_records 0 (2 * sizeof_Packet) two_record_game = Inr s'"
    and t: "receiveFromClients two_record_avail two_record_game = Inr t"
    and logs: "map shape (event_log s') = ?steps" "map shape (event_log t) = ?steps"
    by (elim conjE exE)
  show ?thesis
    using two_records_fit logs by (simp only: s' t map_sum.simps comp_apply simp_thms)
qed

text \<open>
  C5, as the spec words it, fails. Session 0 delivers two action records in one receive.
  The log of the call is merge, broadcast, merge, broadcast: the second record is merged
  after the first broadcast has been sent, so not every merge of the tick comes before
  every broadcast of the tick.
\<close>

theorem merges_before_broadcasts_counterexample:
  "event_log example_game = [] \<and>
   map_sum id (map shape \<circ> event_log) (receiveFromClients two_record_avail example_game) =
     Inr [Merge (action_packet (1, 2) (-1, -1)), Send,
          Merge (action_packet (3, 4) (-1, -1)), Send] \<and>
   \<not> merges_before_broadcasts
       [Merge (action_packet (1, 2) (-1, -1)), Send,
        Merge (action_packet (3, 4) (-1, -1)), Send]"
proof -
  let ?steps = "[Merge (action_packet (1, 2) (-1, -1)), Send,
                 Merge (action_packet (3, 4) (-1, -1)), Send]"
  have empty: "event_log example_game = []"
    by (simp add: example_game_def ServerGame_new_def)
  have table: "sessions (network example_game) = [(0, 100), (1, 101)]"
    by (simp add: example_game_def two_sessions_def)
  obtain t where t: "receive_loop two_record_avail [(0, 100), (1, 101)] example_game = Inr t"
    and log: "map shape (event_log t) =
         map shape (event_log example_game) @
         tick_steps two_record_avail [(0, 100), (1, 101)] (network_data example_game)"
    using receive_loop_steps [of two_record_avail "[(0, 100), (1, 101)]" example_game]
      two_record_avail_fits by blast
  have run: "receiveFromClients two_record_avail example_game = Inr t"
    using t by (simp only: receiveFromClients_def table)
  have "map shape (event_log t) = ?steps"
    using log by (simp only: empty two_record_avail_steps list.map append_Nil)
  then have "map_sum id (map shape \<circ> event_log) (receiveFromClients two_record_avail example_game) =
             Inr ?steps"
    by (simp only: run map_sum.simps comp_apply)
  moreover have "\<not> merges_before_broadcasts ?steps"
    by simp
  ultimately show ?thesis
    using empty by simp
qed

section \<open>Session identifiers\<close>

lemma accepted_simps [simp]:
  "accepted [] = []"
  "accepted ((env, logic) # frames) =
     (case pending env of None \<Rightarrow> accepted frames | Some h \<Rightarrow> h # accepted frames)"
  by (simp_all add: accepted_def List.map_filter_simps split: option.splits)

lemma update_accept:
  assumes "update env s = Inr s'"
  shows "client_id s' = (case pending env of None \<Rightarrow> client_id s | Some h \<Rightarrow> client_id s + 1)"
    and "sessions (network s') =
         (case pending env of None \<Rightarrow> sessions (network s)
          | Some h \<Rightarrow> insert_session (client_id s) h (sessions (network s)))"
proof -
  obtain accepted' nw where acc: "acceptNewClient (pending env) (client_id s) (network s) = (accepted', nw)"
    by (cases "acceptNewClient (pending env) (client_id s) (network s)")
  let ?s2 = "if accepted' then s\<lparr>network := nw, client_id := client_id s + 1\<rparr> else s\<lparr>network := nw\<rparr>"
  have "receive_loop (incoming env) (sessions (network ?s2)) ?s2 = Inr s'"
    using assms acc by (simp add: update_def receiveFromClients_def Let_def split: if_splits)
  from receive_loop_keeps [OF this]
  have keep: "client_id s' = client_id ?s2" "sessions (network s') = sessions (network ?s2)"
    by simp_all
  show "client_id s' = (case pending env of None \<Rightarrow> client_id s | Some h \<Rightarrow> client_id s + 1)"
    using keep(1) acc by (auto simp: acceptNewClient_def split: option.splits)
  show "sessions (network s') =
         (case pending env of None \<Rightarrow> sessions (network s)
          | Some h \<Rightarrow> insert_session (client_id s) h (sessions (network s)))"
    using keep(2) acc by (auto simp: acceptNewClient_def split: option.splits)
qed

lemma game_logic_step_keeps [simp]:
  "client_id (game_logic_step logic s) = client_id s"
  "network (game_logic_step logic s) = network s"
  "network_data (game_logic_step logic s) = network_data s"
  by (simp_all add: game_logic_step_def)

lemma run_client_id:
  "run frames s = Inr s' \<Longrightarrow> client_id s' = client_id s + of_nat (length (accepted frames))"
proof (induction frames arbitrary: s)
  case Nil
  then show ?case by simp
next
  case (Cons f frames)
  obtain env logic where f: "f = (env, logic)" by (cases f)
  from Cons.prems obtain s1 where s1: "update env s = Inr s1"
    and rest: "run frames (game_logic_step logic s1) = Inr s'"
    by (auto simp: f split: sum.splits)
  from Cons.IH [OF rest] update_accept(1) [OF s1] show ?case
    by (simp add: f split: option.splits)
qed

lemma insert_session_append:
  "\<forall>(j, g) \<in> set xs. j < i \<Longrightarrow> insert_session i h xs = xs @ [(i, h)]"
  by (induction xs) auto

lemma len32: "LENGTH(32) = 32"
  by simp

lemma word_of_nat_less:
  assumes "k < m" "m < 2 ^ 32"
  shows "(of_nat k :: 32 word) < of_nat m"
proof -
  have "k < 2 ^ 32"
    using assms by (rule less_trans)
  then have "unat (of_nat k :: 32 word) = k" "unat (of_nat m :: 32 word) = m"
    using assms(2) by (simp_all only: unat_of_nat len32 mod_less)
  then show ?thesis
    using assms(1) by (simp add: word_less_nat_alt)
qed

lemma register_next:
  assumes "length hs = m" "m < 2 ^ 32"
  shows "insert_session (of_nat m) h (zip (map of_nat [0 ..< m]) hs) =
         zip (map of_nat [0 ..< Suc m]) (hs @ [h])"
proof -
  have "\<forall>(j, g) \<in> set (zip (map of_nat [0 ..< m]) hs). j < (of_nat m :: 32 word)"
  proof (clarify)
    fix j :: "32 word" and g
    assume "(j, g) \<in> set (zip (map of_nat [0 ..< m]) hs)"
    then have "j \<in> set (map of_nat [0 ..< m])"
      by (rule set_zip_leftD)
    then obtain k where "k < m" "j = of_nat k"
      by auto
    then show "j < of_nat m"
      using assms(2) by (simp add: word_of_nat_less)
  qed
  then have "insert_session (of_nat m) h (zip (map of_nat [0 ..< m]) hs) =
             zip (map of_nat [0 ..< m]) hs @ [(of_nat m, h)]"
    by (rule insert_session_append)
  then show ?thesis
    using assms(1) by simp
qed

lemma run_sessions:
  "run frames s = Inr s' \<Longrightarrow> client_id s = of_nat m \<Longrightarrow>
   sessions (network s) = zip (map of_nat [0 ..< m]) hs \<Longrightarrow> length hs = m \<Longrightarrow>
   m + length (accepted frames) \<le> 2 ^ 32 \<Longrightarrow>
   sessions (network s') =
     zip (map of_nat [0 ..< m + length (accepted frames)]) (hs @ accepted frames)"
proof (induction frames arbitrary: s m hs)
  case Nil
  then show ?case by simp
next
  case (Cons f frames)
  obtain env logic where f: "f = (env, logic)" by (cases f)
  from Cons.prems(1) obtain s1 where s1: "update env s = Inr s1"
    and rest: "run frames (game_logic_step logic s1) = Inr s'"
    by (auto simp: f split: sum.splits)
  show ?case
  proof (cases "pending env")
    case None
    have "sessions (network s') =
          zip (map of_nat [0 ..< m + length (accepted frames)]) (hs @ accepted frames)"
      using Cons.prems update_accept [OF s1] None
      by (intro Cons.IH [OF rest]) (simp_all add: f)
    then show ?thesis by (simp add: f None)
  next
    case (Some h)
    have m: "m < 2 ^ 32"
      using Cons.prems(5) by (simp add: f Some)
    have "sessions (network s') =
          zip (map of_nat [0 ..< Suc m + length (accepted frames)]) ((hs @ [h]) @ accepted frames)"
    proof (rule Cons.IH [OF rest])
      show "client_id (game_logic_step logic s1) = of_nat (Suc m)"
        using update_accept(1) [OF s1] Cons.prems(2) by (simp add: Some)
      show "sessions (network (game_logic_step logic s1)) = zip (map of_nat [0 ..< Suc m]) (hs @ [h])"
        using update_accept(2) [OF s1] Cons.prems(2,3) register_next [OF Cons.prems(4) m, of h]
        by (simp add: Some)
      show "length (hs @ [h]) = Suc m"
        using Cons.prems(4) by simp
      show "Suc m + length (accepted frames) \<le> 2 ^ 32"
        using Cons.prems(5) by (simp add: f Some)
    qed
    then show ?thesis by (simp add: f Some)
  qed
qed

lemma distinct_ids:
  assumes "n \<le> 2 ^ 32"
  shows "distinct (map of_nat [0 ..< n] :: 32 word list)"
proof -
  have "inj_on (of_nat :: nat \<Rightarrow> 32 word) (set [0 ..< n])"
  proof (rule inj_onI)
    fix a b assume a: "a \<in> set [0 ..< n]" and b: "b \<in> set [0 ..< n]"
      and eq: "(of_nat a :: 32 word) = of_nat b"
    from a have "a < n" by simp
    then have "a < 2 ^ 32" using assms by (rule less_le_trans)
    then have ua: "unat (of_nat a :: 32 word) = a"
      by (simp only: unat_of_nat len32 mod_less)
    from b have "b < n" by simp
    then have "b < 2 ^ 32" using assms by (rule less_le_trans)
    then have ub: "unat (of_nat b :: 32 word) = b"
      by (simp only: unat_of_nat len32 mod_less)
    from eq have "unat (of_nat a :: 32 word) = unat (of_nat b :: 32 word)"
      by (rule arg_cong)
    then show "a = b" by (simp only: ua ub)
  qed
  moreover have "distinct [0 ..< n]"
    by simp
  ultimately show ?thesis
    by (simp only: distinct_map simp_thms)
qed

text \<open>
  C7, as the code has it. After any run of frames from a newly constructed server, the
  identifier that the next accepted connection receives is the number of connections
  accepted so far, as a 32-bit unsigned value: it starts at 0, grows by 1 per accepted
  connection, and is \<open>k mod 2^32\<close> for connection number \<open>k\<close>. As long as no more than
  \<open>2^32\<close> connections have been accepted, connection number \<open>k\<close> is registered under the
  identifier \<open>k\<close>, and the identifiers in the table are pairwise distinct.
\<close>

theorem session_ids:
  "run frames (ServerGame_new uninit pads) = Inr s \<Longrightarrow>
   client_id s = of_nat (length (accepted frames)) \<and>
   (length (accepted frames) \<le> 2 ^ 32 \<longrightarrow>
      sessions (network s) =
        zip (map of_nat [0 ..< length (accepted frames)]) (accepted frames) \<and>
      distinct (map fst (sessions (network s))))"
proof -
  assume run: "run frames (ServerGame_new uninit pads) = Inr s"
  let ?n = "length (accepted frames)"
  have start: "client_id (ServerGame_new uninit pads) = of_nat 0"
      "sessions (network (ServerGame_new uninit pads)) = zip (map of_nat [0 ..< 0]) []"
    by (simp_all add: ServerGame_new_def ServerNetwork_new_def)
  have "client_id s = of_nat ?n"
    using run_client_id [OF run] by (simp add: ServerGame_new_def)
  moreover have "sessions (network s) = zip (map of_nat [0 ..< ?n]) (accepted frames)"
    if "?n \<le> 2 ^ 32"
    using run_sessions [OF run start] that by simp
  moreover have "distinct (map fst (sessions (network s)))" if "?n \<le> 2 ^ 32"
    using run_sessions [OF run start] that distinct_ids [OF that]
    by simp
  ultimately show ?thesis by simp
qed

lemma receive_loop_idle:
  "(\<And>ident. avail ident = []) \<Longrightarrow> receive_loop avail xs s = Inr s"
proof (induction xs arbitrary: s)
  case Nil
  then show ?case by simp
next
  case (Cons x xs)
  obtain ident h where x: "x = (ident, h)" by (cases x)
  show ?case
    using Cons.IH [OF Cons.prems, of s] Cons.prems [of ident]
    by (simp add: x receiveData_def Let_def)
qed

lemma update_accept_frame:
  "update (fst (accept_frame h)) s =
     Inr (s\<lparr>network := (network s)\<lparr>sessions := insert_session (client_id s) h (sessions (network s))\<rparr>,
            client_id := client_id s + 1\<rparr>)"
  by (simp add: update_def accept_frame_def acceptNewClient_def receiveFromClients_def
      receive_loop_idle Let_def)

lemma run_accept_frames:
  "\<exists>s'. run (map accept_frame hs) s = Inr s'"
proof (induction hs arbitrary: s)
  case Nil
  then show ?case by simp
next
  case (Cons h hs)
  have "map accept_frame (h # hs) = (fst (accept_frame h), snd (accept_frame h)) # map accept_frame hs"
    by simp
  then show ?case
    using Cons.IH by (simp only: run.simps update_accept_frame sum.case)
qed

lemma accepted_accept_frames [simp]: "accepted (map accept_frame hs) = hs"
  by (induction hs) (simp_all add: accept_frame_def)

theorem session_ids_witness:
  "map_sum id client_id (run [accept_frame 100, accept_frame 101] fresh_game) = Inr 2 \<and>
   map_sum id (sessions \<circ> network) (run [accept_frame 100, accept_frame 101] fresh_game) =
     Inr [(0, 100), (1, 101)]"
proof -
  obtain s where s: "run [accept_frame 100, accept_frame 101] fresh_game = Inr s"
    using run_accept_frames [of "[100, 101]" fresh_game] by auto
  have two: "accepted [accept_frame 100, accept_frame 101] = [100, 101]"
    using accepted_accept_frames [of "[100, 101]"] by simp
  have list: "[0 ..< 2] = [0, Suc 0]"
    by (simp add: upt_rec)
  show ?thesis
    using session_ids [of "[accept_frame 100, accept_frame 101]" "\<lambda>k. 0" "\<lambda>n. wire_pad" s] s
    by (simp add: fresh_game_def two list)
qed

text \<open>
  C7, as the spec words it, fails. After \<open>2^32\<close> accepted connections the counter is 0
  again: connection number \<open>2^32\<close> receives the identifier 0, which the first connection
  received, and not \<open>2^32\<close>.
\<close>

theorem session_ids_wrap_counterexample:
  "client_id fresh_game = 0 \<and>
   map_sum id client_id (run (replicate (2 ^ 32) (accept_frame 7)) fresh_game) = Inr 0"
proof -
  let ?frames = "map accept_frame (replicate (2 ^ 32) 7)"
  obtain s where s: "run ?frames fresh_game = Inr s"
    using run_accept_frames [of "replicate (2 ^ 32) 7" fresh_game] by auto
  have start: "client_id fresh_game = 0"
    by (simp add: fresh_game_def ServerGame_new_def)
  have "client_id s = client_id fresh_game + of_nat (length (accepted ?frames))"
    using s by (rule run_client_id)
  also have "length (accepted ?frames) = 2 ^ LENGTH(32)"
    by (simp only: accepted_accept_frames length_replicate len32)
  finally have "client_id s = 0"
    by (simp only: start of_nat_2p add_0)
  moreover have "replicate (2 ^ 32) (accept_frame 7) = ?frames"
    by (simp only: map_replicate)
  ultimately show ?thesis
    using s start by (simp only: map_sum.simps id_apply simp_thms)
qed

end
